theory Spec2Isabelle
  imports Main
begin

section \<open>Values, function objects and completions\<close>

text \<open>
  The library is generic in the listener type and in the value type. Listeners are
  JavaScript function objects: what matters about them is their identity (the registry
  is searched with \<^verbatim>\<open>===\<close>) and what happens when they are called. A function object is
  therefore a reference, and a function store maps every reference to its code: a
  transformer of the program state that either returns a value or throws one.
\<close>

type_synonym ref = nat

datatype jsval =
    Undefined | Null | Bool bool | Num int | NaN | Str string | Obj ref | Fun ref

text \<open>
  The values a source can hold. The library does no arithmetic, so the numbers are the
  integers and \<^verbatim>\<open>NaN\<close>, the one number that \<^verbatim>\<open>===\<close> tells from itself.

  \<^verbatim>\<open>a === b\<close>: primitives by content, objects and functions by reference, and
  \<^verbatim>\<open>NaN\<close> is not equal to itself.
\<close>

definition strict_eq :: "jsval \<Rightarrow> jsval \<Rightarrow> bool" where
  "strict_eq a b \<longleftrightarrow> a = b \<and> a \<noteq> NaN"

text \<open>\<^verbatim>\<open>typeof v === 'function'\<close>\<close>

fun is_function :: "jsval \<Rightarrow> bool" where
  "is_function (Fun f) = True"
| "is_function v = False"

text \<open>
  The outcome of a call: \<open>Inl (e, s)\<close> when the value \<open>e\<close> was thrown, \<open>Inr (r, s)\<close>
  when \<open>r\<close> was returned, in both cases with the state \<open>s\<close> the call left behind.
\<close>

type_synonym 'w completion = "(jsval \<times> 'w) + (jsval \<times> 'w)"

type_synonym 'w funstore = "ref \<Rightarrow> jsval list \<Rightarrow> 'w \<Rightarrow> 'w completion"

text \<open>The invocations a loop of the library made, in order: who was called, with what.\<close>

type_synonym call_log = "(ref \<times> jsval list) list"

text \<open>\<^verbatim>\<open>v(args)\<close> for a value \<open>v\<close>: calling anything but a function throws.\<close>

fun call :: "'w funstore \<Rightarrow> jsval \<Rightarrow> jsval list \<Rightarrow> 'w \<Rightarrow> 'w completion" where
  "call funs (Fun f) args w = funs f args w"
| "call funs v args w = Inl (Str ''TypeError'', w)"


section \<open>The state captured by an event source\<close>

text \<open>
  \<^verbatim>\<open>createCustomEvent\<close> closes over the array \<^verbatim>\<open>listeners\<close>;
  \<^verbatim>\<open>createValueBackedEvent\<close> closes over \<^verbatim>\<open>listeners\<close> and \<^verbatim>\<open>value\<close>. The rest of
  the program state that a callback may touch lives in the extension of the record.
\<close>

record ce_state =
  listeners :: "ref list"

record vb_state = ce_state +
  "value" :: jsval

definition createCustomEvent :: ce_state where
  "createCustomEvent = \<lparr>listeners = []\<rparr>"

definition createValueBackedEvent :: "jsval \<Rightarrow> vb_state" where
  "createValueBackedEvent initValue = \<lparr>listeners = [], value = initValue\<rparr>"


section \<open>aryRemoveItem\<close>

text \<open>
  The index loop of \<^verbatim>\<open>aryRemoveItem\<close>; \<^verbatim>\<open>ary.splice(i,1)\<close> drops the element at \<open>i\<close>.
  The result is the returned flag together with the array as it is left.
\<close>

function aryRemoveItem_from :: "nat \<Rightarrow> 'a list \<Rightarrow> 'a \<Rightarrow> bool \<times> 'a list" where
  "aryRemoveItem_from i ary item =
     (if i < length ary then
        (if ary ! i = item then (True, take i ary @ drop (i + 1) ary)
         else aryRemoveItem_from (i + 1) ary item)
      else (False, ary))"
  by pat_completeness auto
termination
  by (relation "measure (\<lambda>(i, ary, item). length ary - i)") auto

declare aryRemoveItem_from.simps [simp del]

definition aryRemoveItem :: "'a list \<Rightarrow> 'a \<Rightarrow> bool \<times> 'a list" where
  "aryRemoveItem ary item = aryRemoveItem_from 0 ary item"


section \<open>Registration and removal\<close>

text \<open>
  \<^verbatim>\<open>removeListener\<close>, \<^verbatim>\<open>addListener\<close> and the callable \<^verbatim>\<open>evt\<close> are written out twice in
  the source, word for word the same, in \<^verbatim>\<open>createCustomEvent\<close> and in
  \<^verbatim>\<open>createValueBackedEvent\<close>; one definition over the extensible record serves both.
  \<^verbatim>\<open>evt\<close> returns the remover, a closure over \<^verbatim>\<open>listener\<close>, and the new state.
\<close>

definition removeListener :: "ref \<Rightarrow> 'z ce_state_scheme \<Rightarrow> 'z ce_state_scheme" where
  "removeListener listener w = w\<lparr>listeners := snd (aryRemoveItem (listeners w) listener)\<rparr>"

definition addListener :: "ref \<Rightarrow> 'z ce_state_scheme \<Rightarrow> 'z ce_state_scheme" where
  "addListener listener w = w\<lparr>listeners := listeners w @ [listener]\<rparr>"

definition evt :: "ref \<Rightarrow> 'z ce_state_scheme \<Rightarrow>
    ('z ce_state_scheme \<Rightarrow> 'z ce_state_scheme) \<times> 'z ce_state_scheme" where
  "evt listener w = (removeListener listener, w\<lparr>listeners := listeners w @ [listener]\<rparr>)"


section \<open>Dispatch\<close>

text \<open>
  How a loop of the library ends: \<open>Inl (e, s)\<close> when a callback threw \<open>e\<close>, \<open>Inr s\<close>
  when the loop ran to its end. \<open>returning\<close> is the \<^verbatim>\<open>return\<close> that follows the loop.
\<close>

type_synonym 'w loop_end = "(jsval \<times> 'w) + 'w"

fun returning :: "('w \<Rightarrow> jsval) \<Rightarrow> 'w loop_end \<Rightarrow> 'w completion" where
  "returning f (Inl x) = Inl x"
| "returning f (Inr w) = Inr (f w, w)"

text \<open>
  \<^verbatim>\<open>for(const l of listeners){ ... }\<close> walks the live array: the array iterator keeps an
  index, and each step compares it with the length the array has then and reads the
  element that is at that index then. The callbacks can change the array, so the loop
  need not come to an end: \<open>None\<close> is the loop that never returns. The arguments are
  computed from the state at each step (\<^verbatim>\<open>l(value)\<close> reads the variable \<^verbatim>\<open>value\<close> every
  time round; \<^verbatim>\<open>l.apply(null,args)\<close> passes the same \<^verbatim>\<open>args\<close>). An exception leaves the
  loop at once. (The guard \<^verbatim>\<open>if(listeners)\<close> around the loop is always taken: an array is
  truthy.)
\<close>

partial_function (option) dispatch ::
  "'z ce_state_scheme funstore \<Rightarrow> ('z ce_state_scheme \<Rightarrow> jsval list) \<Rightarrow> nat \<Rightarrow> call_log \<Rightarrow>
     'z ce_state_scheme \<Rightarrow> (call_log \<times> 'z ce_state_scheme loop_end) option" where
  "dispatch funs argf i log w =
     (if i < length (listeners w) then
        (let l = listeners w ! i; args = argf w in
         case funs l args w of
           Inl (e, w') \<Rightarrow> Some (log @ [(l, args)], Inl (e, w'))
         | Inr (r, w') \<Rightarrow> dispatch funs argf (i + 1) (log @ [(l, args)]) w')
      else Some (log, Inr w))"

text \<open>\<^verbatim>\<open>trigger\<close> of \<^verbatim>\<open>createCustomEvent\<close>: the loop, then nothing is returned.\<close>

definition trigger :: "'z ce_state_scheme funstore \<Rightarrow> jsval list \<Rightarrow> 'z ce_state_scheme \<Rightarrow>
    (call_log \<times> 'z ce_state_scheme completion) option" where
  "trigger funs args w =
     map_option (apsnd (returning (\<lambda>s. Undefined))) (dispatch funs (\<lambda>s. args) 0 [] w)"


section \<open>The value-backed event source\<close>

definition getValue :: "'z vb_state_scheme \<Rightarrow> jsval" where
  "getValue w = value w"

text \<open>
  The first statement of \<^verbatim>\<open>setValue\<close>: a function is called with the current value and
  its result replaces \<^verbatim>\<open>v\<close>; anything else is taken as it is.
\<close>

definition resolve :: "'z vb_state_scheme funstore \<Rightarrow> jsval \<Rightarrow> 'z vb_state_scheme \<Rightarrow>
    'z vb_state_scheme completion" where
  "resolve funs v w = (if is_function v then call funs v [value w] w else Inr (v, w))"

definition setValue :: "'z vb_state_scheme funstore \<Rightarrow> jsval \<Rightarrow> 'z vb_state_scheme \<Rightarrow>
    (call_log \<times> 'z vb_state_scheme completion) option" where
  "setValue funs v w =
     (case resolve funs v w of
        Inl (e, w1) \<Rightarrow> Some ([], Inl (e, w1))
      | Inr (v', w1) \<Rightarrow>
          if strict_eq v' (value w1) then Some ([], Inr (value w1, w1))
          else map_option (apsnd (returning value))
                 (dispatch funs (\<lambda>s. [value s]) 0 [] (w1\<lparr>value := v'\<rparr>)))"

text \<open>\<^verbatim>\<open>trigger\<close> of \<^verbatim>\<open>createValueBackedEvent\<close>.\<close>

definition vb_trigger :: "'z vb_state_scheme funstore \<Rightarrow> jsval \<Rightarrow> 'z vb_state_scheme \<Rightarrow>
    (call_log \<times> 'z vb_state_scheme completion) option" where
  "vb_trigger funs v w =
     (if strict_eq v (value w) then Some ([], Inr (Undefined, w))
      else map_option (apsnd (returning (\<lambda>s. Undefined)))
             (dispatch funs (\<lambda>s. [value s]) 0 [] (w\<lparr>value := v\<rparr>)))"


section \<open>joinRemoveListeners\<close>

text \<open>
  The rest parameter is an array of its own that nothing else can reach, so the loop of
  the returned closure walks a fixed list. Each remover is called with no argument.
\<close>

fun joinRemoveListeners_loop ::
  "'w funstore \<Rightarrow> ref list \<Rightarrow> call_log \<Rightarrow> 'w \<Rightarrow> call_log \<times> 'w loop_end" where
  "joinRemoveListeners_loop funs [] log w = (log, Inr w)"
| "joinRemoveListeners_loop funs (l # ls) log w =
     (case funs l [] w of
        Inl (e, w') \<Rightarrow> (log @ [(l, [])], Inl (e, w'))
      | Inr (r, w') \<Rightarrow> joinRemoveListeners_loop funs ls (log @ [(l, [])]) w')"

definition joinRemoveListeners ::
  "'w funstore \<Rightarrow> ref list \<Rightarrow> 'w \<Rightarrow> call_log \<times> 'w completion" where
  "joinRemoveListeners funs removers =
     (\<lambda>w. apsnd (returning (\<lambda>s. Undefined)) (joinRemoveListeners_loop funs removers [] w))"


section \<open>Callers and callbacks used in the statements below\<close>

text \<open>A registration is made by calling \<^verbatim>\<open>evt(listener)\<close> or \<^verbatim>\<open>evt.addListener(listener)\<close>.\<close>

datatype registration = ViaEvt ref | ViaAddListener ref

fun registered :: "registration \<Rightarrow> ref" where
  "registered (ViaEvt l) = l"
| "registered (ViaAddListener l) = l"

fun register :: "registration \<Rightarrow> 'z ce_state_scheme \<Rightarrow> 'z ce_state_scheme" where
  "register (ViaEvt l) w = snd (evt l w)"
| "register (ViaAddListener l) w = addListener l w"

text \<open>
  The listeners \<open>ls\<close>, called with \<open>args\<close> while the registry is \<open>ls\<close>, return and leave
  the registry as it is: the registry is not modified during dispatch.
\<close>

definition keeps_registry :: "'z ce_state_scheme funstore \<Rightarrow> jsval list \<Rightarrow> ref list \<Rightarrow> bool" where
  "keeps_registry funs args ls \<longleftrightarrow>
     (\<forall>l\<in>set ls. \<forall>s. listeners s = ls \<longrightarrow>
        (\<exists>r s'. funs l args s = Inr (r, s') \<and> listeners s' = ls))"

text \<open>A store whose functions return at once and touch nothing.\<close>

definition plain :: "'w funstore" where
  "plain l args w = Inr (Undefined, w)"

text \<open>
  Function 0 calls the remover it got from \<^verbatim>\<open>evt\<close> when it registered; every other
  function returns at once.
\<close>

definition self_removing :: "ce_state funstore" where
  "self_removing l args w =
     (if l = 0 then Inr (Undefined, fst (evt 0 createCustomEvent) w) else Inr (Undefined, w))"


text \<open>
  Function 0 throws; every other function is the remover that \<^verbatim>\<open>evt\<close> returned for
  listener 3.
\<close>

definition failing_then_remover :: "ce_state funstore" where
  "failing_then_remover l args w =
     (if l = 0 then Inl (Str ''boom'', w)
      else Inr (Undefined, fst (evt 3 createCustomEvent) w))"

text \<open>Function \<open>l\<close> is the remover that \<^verbatim>\<open>evt\<close> returned for listener \<open>l\<close>.\<close>

definition removers :: "ce_state funstore" where
  "removers l args w = Inr (Undefined, fst (evt l createCustomEvent) w)"

text \<open>The listener registered twice on a fresh event source, and its first remover.\<close>

definition registered_twice :: ce_state where
  "registered_twice = snd (evt 7 (snd (evt 7 createCustomEvent)))"

definition first_remover :: "ce_state \<Rightarrow> ce_state" where
  "first_remover = fst (evt 7 createCustomEvent)"

text \<open>
  The callbacks of a value-backed source, called while it dispatches, return and leave
  its registry and its value as they are.
\<close>

definition quiet :: "'z vb_state_scheme funstore \<Rightarrow> ref \<Rightarrow> bool" where
  "quiet funs l \<longleftrightarrow>
     (\<forall>args s. \<exists>r s'. funs l args s = Inr (r, s') \<and>
        listeners s' = listeners s \<and> value s' = value s)"

text \<open>What \<^verbatim>\<open>trigger\<close> returns in place of what \<^verbatim>\<open>setValue\<close> returns.\<close>

fun forget_result :: "'w completion \<Rightarrow> 'w completion" where
  "forget_result (Inl x) = Inl x"
| "forget_result (Inr (r, w)) = Inr (Undefined, w)"





text \<open>A store whose functions return their numeric argument plus one and touch nothing.\<close>

fun incrementing :: "'w funstore" where
  "incrementing l [Num n] w = Inr (Num (n + 1), w)"
| "incrementing l args w = Inr (Undefined, w)"

text \<open>A store whose functions return themselves and touch nothing.\<close>

definition self_returning :: "'w funstore" where
  "self_returning f args w = Inr (Fun f, w)"




text \<open>The state a call leaves behind, and whether the call returned.\<close>

fun after_call :: "'w completion \<Rightarrow> 'w" where
  "after_call (Inl (e, s)) = s"
| "after_call (Inr (r, s)) = s"

fun returned :: "'w completion \<Rightarrow> bool" where
  "returned (Inl x) = False"
| "returned (Inr y) = True"

text \<open>
  Calling the functions of a list one after the other, in the order of the list, once
  each, each with \<open>args\<close>: the state this leaves, and whether each call, made in the state
  the calls before it left, returns.
\<close>

fun run_calls :: "'w funstore \<Rightarrow> jsval list \<Rightarrow> ref list \<Rightarrow> 'w \<Rightarrow> 'w" where
  "run_calls funs args [] w = w"
| "run_calls funs args (l # ls) w = run_calls funs args ls (after_call (funs l args w))"

fun all_return :: "'w funstore \<Rightarrow> jsval list \<Rightarrow> ref list \<Rightarrow> 'w \<Rightarrow> bool" where
  "all_return funs args [] w = True"
| "all_return funs args (l # ls) w =
     (returned (funs l args w) \<and> all_return funs args ls (after_call (funs l args w)))"

text \<open>
  Sources next to a journal, and listeners that note in it who was called with what, as
  the listeners of the README print what they are given. In the value-backed store
  function 9 is the updater that adds one.
\<close>

record heard_state = ce_state +
  heard :: call_log

record vb_heard_state = vb_state +
  vb_heard :: call_log

definition noting :: "heard_state funstore" where
  "noting l args w = Inr (Undefined, w\<lparr>heard := heard w @ [(l, args)]\<rparr>)"

definition vb_noting :: "vb_heard_state funstore" where
  "vb_noting l args w =
     (if l = 9 then incrementing l args w
      else Inr (Undefined, w\<lparr>vb_heard := vb_heard w @ [(l, args)]\<rparr>))"

text \<open>Function 0 throws; every other function returns at once.\<close>

definition throwing_first :: "'w funstore" where
  "throwing_first l args w = (if l = 0 then Inl (Str ''boom'', w) else Inr (Undefined, w))"

text \<open>
  Function 0, called with anything but \<^verbatim>\<open>'z'\<close>, calls \<^verbatim>\<open>trigger('z')\<close> of the source it
  listens to and returns. The listeners this nested call dispatches to are function 0,
  now called with \<^verbatim>\<open>'z'\<close>, and the other functions, and all of these return at once:
  \<open>plain\<close> is their code.
\<close>

definition reentrant :: "vb_state funstore" where
  "reentrant l args w =
     (if l = 0 \<and> args \<noteq> [Str ''z''] then
        (case vb_trigger plain (Str ''z'') w of
           Some (log, c) \<Rightarrow> c
         | None \<Rightarrow> Inr (Undefined, w))
      else Inr (Undefined, w))"

text \<open>Function 0 calls \<^verbatim>\<open>evt.removeListener\<close> on itself; every other function returns at once.\<close>

definition removing_itself :: "'z ce_state_scheme funstore" where
  "removing_itself l args w =
     (if l = 0 then Inr (Undefined, removeListener 0 w) else Inr (Undefined, w))"


section \<open>aryRemoveItem removes the first occurrence\<close>

lemma aryRemoveItem_from_eq:
  "i \<le> length ary \<Longrightarrow> item \<notin> set (take i ary) \<Longrightarrow>
   aryRemoveItem_from i ary item =
     (item \<in> set (drop i ary), take i ary @ remove1 item (drop i ary))"
proof (induction i ary item rule: aryRemoveItem_from.induct)
  case (1 i ary item)
  show ?case
  proof (cases "i < length ary")
    case False
    with "1.prems" show ?thesis
      by (subst aryRemoveItem_from.simps) simp
  next
    case True
    then have d: "drop i ary = ary ! i # drop (Suc i) ary"
      by (simp add: Cons_nth_drop_Suc)
    show ?thesis
    proof (cases "ary ! i = item")
      case True
      with \<open>i < length ary\<close> d show ?thesis
        by (subst aryRemoveItem_from.simps) simp
    next
      case False
      have t: "take (Suc i) ary = take i ary @ [ary ! i]"
        using \<open>i < length ary\<close> by (simp add: take_Suc_conv_app_nth)
      have "aryRemoveItem_from (i + 1) ary item =
            (item \<in> set (drop (i + 1) ary),
             take (i + 1) ary @ remove1 item (drop (i + 1) ary))"
        using "1.IH" [OF \<open>i < length ary\<close> False] \<open>i < length ary\<close> False "1.prems" t by simp
      with \<open>i < length ary\<close> False d t show ?thesis
        by (subst aryRemoveItem_from.simps) auto
    qed
  qed
qed

lemma aryRemoveItem_eq: "aryRemoveItem ary item = (item \<in> set ary, remove1 item ary)"
  by (simp add: aryRemoveItem_def aryRemoveItem_from_eq)

lemma removeListener_eq: "removeListener l w = w\<lparr>listeners := remove1 l (listeners w)\<rparr>"
  by (simp add: removeListener_def aryRemoveItem_eq)

lemma removeListener_absent: "l \<notin> set (listeners w) \<Longrightarrow> removeListener l w = w"
  by (simp add: removeListener_eq remove1_idem)

lemma remove1_first: "l \<notin> set xs \<Longrightarrow> remove1 l (xs @ l # ys) = xs @ ys"
  by (simp add: remove1_append)

lemma removeListener_first:
  "listeners w = xs @ l # ys \<Longrightarrow> l \<notin> set xs \<Longrightarrow> removeListener l w = w\<lparr>listeners := xs @ ys\<rparr>"
  by (simp add: removeListener_eq remove1_first)

lemma count_list_remove1: "count_list (remove1 l xs) l = count_list xs l - 1"
  by (induction xs) auto

lemma remove1_twice: "count_list xs l \<le> 1 \<Longrightarrow> remove1 l (remove1 l xs) = remove1 l xs"
proof -
  assume le: "count_list xs l \<le> 1"
  have "count_list (remove1 l xs) l = count_list xs l - 1"
    by (rule count_list_remove1)
  with le have "count_list (remove1 l xs) l = 0"
    by arith
  then have "l \<notin> set (remove1 l xs)"
    using count_list_0_iff [of "remove1 l xs" l] by blast
  then show ?thesis
    by (rule remove1_idem)
qed

lemma remover_eq: "fst (evt l w0) = removeListener l"
  by (simp add: evt_def)

lemma listeners_register:
  "listeners (foldl (\<lambda>w r. register r w) w regs) = listeners w @ map registered regs"
proof (induction regs arbitrary: w)
  case Nil
  show ?case by simp
next
  case (Cons r regs)
  show ?case
    by (cases r) (simp_all add: Cons.IH evt_def addListener_def)
qed


section \<open>Dispatch over a registry that the callbacks leave alone\<close>

lemma dispatch_exact:
  assumes step: "\<And>l s. l \<in> set ls \<Longrightarrow> listeners s = ls \<Longrightarrow> argf s = args \<Longrightarrow>
      \<exists>r s'. funs l args s = Inr (r, s') \<and> listeners s' = ls \<and> argf s' = args"
  shows "listeners w = ls \<Longrightarrow> argf w = args \<Longrightarrow>
     dispatch funs argf i log w =
        Some (log @ map (\<lambda>l. (l, args)) (drop i ls), Inr (run_calls funs args (drop i ls) w)) \<and>
     listeners (run_calls funs args (drop i ls) w) = ls \<and>
     argf (run_calls funs args (drop i ls) w) = args"
proof (induction "length ls - i" arbitrary: i log w)
  case 0
  then show ?case
    by (subst dispatch.simps) simp
next
  case (Suc n)
  then have lt: "i < length ls" by simp
  then have mem: "ls ! i \<in> set ls" by simp
  from step [OF mem Suc.prems] obtain r s' where
    c: "funs (ls ! i) args w = Inr (r, s')" and l: "listeners s' = ls" and a: "argf s' = args"
    by blast
  have n: "n = length ls - (i + 1)" using Suc.hyps(2) by simp
  have dr: "drop i ls = ls ! i # drop (Suc i) ls"
    using lt by (simp add: Cons_nth_drop_Suc)
  have rc: "run_calls funs args (drop i ls) w = run_calls funs args (drop (Suc i) ls) s'"
    using c dr by simp
  from Suc.hyps(1) [OF n l a, of "log @ [(ls ! i, args)]"] have
    d: "dispatch funs argf (i + 1) (log @ [(ls ! i, args)]) s' =
          Some ((log @ [(ls ! i, args)]) @ map (\<lambda>l. (l, args)) (drop (i + 1) ls),
                Inr (run_calls funs args (drop (i + 1) ls) s'))"
    and l': "listeners (run_calls funs args (drop (i + 1) ls) s') = ls"
    and a': "argf (run_calls funs args (drop (i + 1) ls) s') = args"
    by simp_all
  have "dispatch funs argf i log w =
          Some (log @ map (\<lambda>l. (l, args)) (drop i ls), Inr (run_calls funs args (drop i ls) w))"
    using lt Suc.prems c d dr rc by (subst dispatch.simps) simp
  with l' a' rc show ?case by simp
qed

lemma trigger_exact:
  assumes "keeps_registry funs args ls" and "listeners w = ls"
  shows "trigger funs args w =
           Some (map (\<lambda>l. (l, args)) ls, Inr (Undefined, run_calls funs args ls w)) \<and>
         listeners (run_calls funs args ls w) = ls"
proof -
  have "dispatch funs (\<lambda>s. args) 0 [] w =
          Some ([] @ map (\<lambda>l. (l, args)) (drop 0 ls), Inr (run_calls funs args (drop 0 ls) w)) \<and>
        listeners (run_calls funs args (drop 0 ls) w) = ls \<and>
        (\<lambda>s. args) (run_calls funs args (drop 0 ls) w) = args"
    using assms by (intro dispatch_exact) (auto simp: keeps_registry_def)
  then show ?thesis
    by (simp add: trigger_def)
qed

lemma dispatch_stable:
  assumes step: "\<And>l s. l \<in> set ls \<Longrightarrow> listeners s = ls \<Longrightarrow> argf s = args \<Longrightarrow>
      \<exists>r s'. funs l args s = Inr (r, s') \<and> listeners s' = ls \<and> argf s' = args"
  shows "listeners w = ls \<Longrightarrow> argf w = args \<Longrightarrow>
     \<exists>w'. dispatch funs argf i log w =
             Some (log @ map (\<lambda>l. (l, args)) (drop i ls), Inr w') \<and>
          listeners w' = ls \<and> argf w' = args"
  using dispatch_exact [where funs = funs and argf = argf and ls = ls and args = args
      and w = w and i = i and log = log, OF step]
  by blast

lemma dispatch_value_quiet:
  assumes q: "\<forall>l\<in>set (listeners w). quiet funs l" and v: "value w = c"
  shows "\<exists>w'. dispatch funs (\<lambda>s. [value s]) 0 [] w =
             Some (map (\<lambda>l. (l, [c])) (listeners w), Inr w') \<and>
          listeners w' = listeners w \<and> value w' = c"
proof -
  have step: "\<exists>r s'. funs l [c] s = Inr (r, s') \<and> listeners s' = listeners w \<and>
                (\<lambda>s. [value s]) s' = [c]"
    if "l \<in> set (listeners w)" "listeners s = listeners w" "(\<lambda>s. [value s]) s = [c]" for l s
  proof -
    from q that(1) have "quiet funs l" by blast
    then obtain r s' where "funs l [c] s = Inr (r, s')" "listeners s' = listeners s"
        "value s' = value s"
      unfolding quiet_def by blast
    with that show ?thesis by simp
  qed
  have "\<exists>w'. dispatch funs (\<lambda>s. [value s]) 0 [] w =
             Some ([] @ map (\<lambda>l. (l, [c])) (drop 0 (listeners w)), Inr w') \<and>
          listeners w' = listeners w \<and> (\<lambda>s. [value s]) w' = [c]"
    by (rule dispatch_stable [where ls = "listeners w" and args = "[c]" and funs = funs
          and argf = "\<lambda>s. [value s]"]) (use step v in auto)
  then show ?thesis by simp
qed


lemma dispatch_value_exact:
  assumes q: "\<forall>l\<in>set (listeners w). quiet funs l" and v: "value w = c"
  shows "dispatch funs (\<lambda>s. [value s]) 0 [] w =
           Some (map (\<lambda>l. (l, [c])) (listeners w), Inr (run_calls funs [c] (listeners w) w)) \<and>
         listeners (run_calls funs [c] (listeners w) w) = listeners w \<and>
         value (run_calls funs [c] (listeners w) w) = c"
proof -
  have step: "\<exists>r s'. funs l [c] s = Inr (r, s') \<and> listeners s' = listeners w \<and>
                (\<lambda>s. [value s]) s' = [c]"
    if "l \<in> set (listeners w)" "listeners s = listeners w" "(\<lambda>s. [value s]) s = [c]" for l s
  proof -
    from q that(1) have "quiet funs l" by blast
    then obtain r s' where "funs l [c] s = Inr (r, s')" "listeners s' = listeners s"
        "value s' = value s"
      unfolding quiet_def by blast
    with that show ?thesis by simp
  qed
  have "dispatch funs (\<lambda>s. [value s]) 0 [] w =
          Some ([] @ map (\<lambda>l. (l, [c])) (drop 0 (listeners w)),
                Inr (run_calls funs [c] (drop 0 (listeners w)) w)) \<and>
        listeners (run_calls funs [c] (drop 0 (listeners w)) w) = listeners w \<and>
        (\<lambda>s. [value s]) (run_calls funs [c] (drop 0 (listeners w)) w) = [c]"
    by (rule dispatch_exact [where ls = "listeners w" and args = "[c]" and funs = funs
          and argf = "\<lambda>s. [value s]"]) (use step v in auto)
  then show ?thesis by simp
qed


section \<open>Removal\<close>

text \<open>
  Claim C8. \<^verbatim>\<open>evt.removeListener(f)\<close> removes the first registry entry identical to
  \<open>f\<close> and leaves everything else, in its order; when no entry is identical to \<open>f\<close>
  (never registered, or removed already) the call changes nothing. It cannot raise:
  the model needs no error result for it, because nothing in it can throw.
\<close>

theorem removeListener_first_or_noop:
  "(l \<notin> set (listeners w) \<longrightarrow> removeListener l w = w) \<and>
   (\<forall>xs ys. listeners w = xs @ l # ys \<and> l \<notin> set xs \<longrightarrow>
        removeListener l w = w\<lparr>listeners := xs @ ys\<rparr>)"
proof (intro conjI impI allI)
  assume "l \<notin> set (listeners w)"
  then show "removeListener l w = w"
    by (rule removeListener_absent)
next
  fix xs ys
  assume "listeners w = xs @ l # ys \<and> l \<notin> set xs"
  then show "removeListener l w = w\<lparr>listeners := xs @ ys\<rparr>"
    by (simp add: removeListener_first)
qed

theorem removeListener_first_or_noop_witness:
  "removeListener 3 \<lparr>listeners = [1, 2, 1]\<rparr> = \<lparr>listeners = [1, 2, 1]\<rparr> \<and>
   removeListener 1 \<lparr>listeners = [2, 1, 5, 1]\<rparr> = \<lparr>listeners = [2, 5, 1]\<rparr>"
  using removeListener_first_or_noop [of 3 "\<lparr>listeners = [1, 2, 1]\<rparr>"]
        removeListener_first_or_noop [of 1 "\<lparr>listeners = [2, 1, 5, 1]\<rparr>",
          THEN conjunct2, rule_format, of "[2]" "[5, 1]"]
  by simp

text \<open>
  Claim C2, as the code has it. The remover that \<^verbatim>\<open>evt(l)\<close> returns is
  \<^verbatim>\<open>removeListener(l)\<close>: every call of it removes the first entry identical to \<open>l\<close> that
  the registry holds then, and does nothing when there is none. So it removes one
  registration of \<open>l\<close> per call, and it is idempotent when \<open>l\<close> is registered at most once
  at the first call; nothing ties it to the registration that created it.
\<close>

theorem remover_removes_first_occurrence:
  "(\<forall>xs ys. listeners w = xs @ l # ys \<and> l \<notin> set xs \<longrightarrow>
        fst (evt l w0) w = w\<lparr>listeners := xs @ ys\<rparr>) \<and>
   (l \<notin> set (listeners w) \<longrightarrow> fst (evt l w0) w = w) \<and>
   (count_list (listeners w) l \<le> 1 \<longrightarrow>
        fst (evt l w0) (fst (evt l w0) w) = fst (evt l w0) w) \<and>
   count_list (listeners (fst (evt l w0) w)) l = count_list (listeners w) l - 1"
proof (intro conjI impI allI)
  fix xs ys
  assume "listeners w = xs @ l # ys \<and> l \<notin> set xs"
  then show "fst (evt l w0) w = w\<lparr>listeners := xs @ ys\<rparr>"
    by (simp add: remover_eq removeListener_first)
next
  assume "l \<notin> set (listeners w)"
  then show "fst (evt l w0) w = w"
    by (simp add: remover_eq removeListener_absent)
next
  assume "count_list (listeners w) l \<le> 1"
  then show "fst (evt l w0) (fst (evt l w0) w) = fst (evt l w0) w"
    by (simp add: remover_eq removeListener_eq remove1_twice)
next
  show "count_list (listeners (fst (evt l w0) w)) l = count_list (listeners w) l - 1"
    by (simp add: remover_eq removeListener_eq count_list_remove1)
qed

theorem remover_removes_first_occurrence_witness:
  "fst (evt 7 createCustomEvent) \<lparr>listeners = [3, 7, 4]\<rparr> = \<lparr>listeners = [3, 4]\<rparr> \<and>
   fst (evt 7 createCustomEvent) (fst (evt 7 createCustomEvent) \<lparr>listeners = [3, 7, 4]\<rparr>) =
     fst (evt 7 createCustomEvent) \<lparr>listeners = [3, 7, 4]\<rparr> \<and>
   fst (evt 7 createCustomEvent) \<lparr>listeners = [3, 4]\<rparr> = \<lparr>listeners = [3, 4]\<rparr>"
  using remover_removes_first_occurrence [of "\<lparr>listeners = [3, 7, 4]\<rparr>" 7 createCustomEvent,
          THEN conjunct1, rule_format, of "[3]" "[4]"]
        remover_removes_first_occurrence [of "\<lparr>listeners = [3, 7, 4]\<rparr>" 7 createCustomEvent]
        remover_removes_first_occurrence [of "\<lparr>listeners = [3, 4]\<rparr>" 7 createCustomEvent]
  by simp

text \<open>
  Claim C2 as stated fails: register the same listener twice and call the first remover
  twice. The second call is not a no-op, it removes the other registration.
\<close>

theorem remover_not_idempotent_counterexample:
  "listeners registered_twice = [7, 7] \<and>
   listeners (first_remover registered_twice) = [7] \<and>
   listeners (first_remover (first_remover registered_twice)) = [] \<and>
   first_remover (first_remover registered_twice) \<noteq> first_remover registered_twice"
  by (simp add: registered_twice_def first_remover_def evt_def createCustomEvent_def
      removeListener_eq)




text \<open>
  The statement above says nothing of a listener that changes the registry while it is
  dispatched to. One that removes itself and is registered twice is invoked once: the
  splice moves its second entry under the index of the loop.
\<close>

lemma twice_registered_self_removal:
  "trigger removing_itself [] (snd (evt 0 (snd (evt 0 createCustomEvent)))) =
     Some ([(0, [])], Inr (Undefined, \<lparr>listeners = [0]\<rparr>))"
  by (simp add: trigger_def dispatch.simps removing_itself_def evt_def createCustomEvent_def
      removeListener_eq)


section \<open>Dispatch by trigger\<close>

text \<open>
  Claim C6. Register L1..LN, in this order, on a source with an empty registry, each by
  \<^verbatim>\<open>evt\<close> or by \<^verbatim>\<open>addListener\<close>. If the registry is not modified during dispatch (every
  listener returns to the loop and leaves the registry as it is), \<^verbatim>\<open>trigger(...args)\<close>
  returns after having called exactly L1..LN, in this order, once each, each with
  \<open>args\<close> as given: its log is that, and the state it ends in is the one these N calls,
  made one after the other, leave.
\<close>

theorem trigger_invokes_in_order:
  assumes "listeners w0 = []"
    and "keeps_registry funs args (map registered regs)"
  shows "trigger funs args (foldl (\<lambda>w r. register r w) w0 regs) =
            Some (map (\<lambda>l. (l, args)) (map registered regs),
                  Inr (Undefined,
                       run_calls funs args (map registered regs)
                         (foldl (\<lambda>w r. register r w) w0 regs))) \<and>
         listeners (run_calls funs args (map registered regs)
                      (foldl (\<lambda>w r. register r w) w0 regs)) = map registered regs"
  using assms by (intro trigger_exact) (simp_all add: listeners_register)

theorem trigger_invokes_in_order_witness:
  "trigger noting [Str ''fast'', Str ''left'']
     (foldl (\<lambda>w r. register r w) \<lparr>listeners = [], heard = []\<rparr>
        [ViaEvt 4, ViaAddListener 2, ViaEvt 9]) =
   Some ([(4, [Str ''fast'', Str ''left'']), (2, [Str ''fast'', Str ''left'']),
          (9, [Str ''fast'', Str ''left''])],
         Inr (Undefined,
              \<lparr>listeners = [4, 2, 9],
               heard = [(4, [Str ''fast'', Str ''left'']), (2, [Str ''fast'', Str ''left'']),
                        (9, [Str ''fast'', Str ''left''])]\<rparr>))"
proof -
  have 1: "listeners \<lparr>listeners = [], heard = []\<rparr> = []"
    by simp
  have 2: "keeps_registry noting [Str ''fast'', Str ''left'']
             (map registered [ViaEvt 4, ViaAddListener 2, ViaEvt 9])"
    by (simp add: keeps_registry_def noting_def)
  from trigger_invokes_in_order [OF 1 2] show ?thesis
    by (simp add: noting_def evt_def addListener_def)
qed

text \<open>
  Claim C1 does not hold of the code. Listeners 0, 1 and 2 are registered in this order
  and listener 0 calls its own remover when it is invoked. The loop of \<^verbatim>\<open>trigger\<close> is
  at index 0 when the entry at index 0 is spliced out; listener 1 moves to index 0, the
  loop goes on at index 1, and listener 1 is not called in this trigger call. (The next
  trigger call does leave listener 0 out.)
\<close>

theorem self_removal_skips_next_listener:
  "trigger self_removing [] (addListener 2 (addListener 1 (snd (evt 0 createCustomEvent)))) =
     Some ([(0, []), (2, [])], Inr (Undefined, \<lparr>listeners = [1, 2]\<rparr>)) \<and>
   trigger self_removing [] \<lparr>listeners = [1, 2]\<rparr> =
     Some ([(1, []), (2, [])], Inr (Undefined, \<lparr>listeners = [1, 2]\<rparr>))"
  by (simp add: trigger_def dispatch.simps self_removing_def evt_def addListener_def
      createCustomEvent_def removeListener_def aryRemoveItem_def aryRemoveItem_from.simps)


section \<open>joinRemoveListeners\<close>

lemma joinRemoveListeners_loop_all_return:
  "all_return funs [] rs w \<Longrightarrow>
   joinRemoveListeners_loop funs rs log w =
     (log @ map (\<lambda>l. (l, [])) rs, Inr (run_calls funs [] rs w))"
proof (induction rs arbitrary: log w)
  case Nil
  show ?case by simp
next
  case (Cons l rs)
  then obtain r s' where c: "funs l [] w = Inr (r, s')"
    by (cases "funs l [] w") auto
  with Cons.prems have "all_return funs [] rs s'"
    by simp
  from Cons.IH [OF this, of "log @ [(l, [])]"] c show ?case
    by simp
qed

lemma joinRemoveListeners_loop_first_throw:
  "all_return funs [] pre w \<Longrightarrow> funs r [] (run_calls funs [] pre w) = Inl (e, s') \<Longrightarrow>
   joinRemoveListeners_loop funs (pre @ r # post) log w =
     (log @ map (\<lambda>l. (l, [])) (pre @ [r]), Inl (e, s'))"
proof (induction pre arbitrary: log w)
  case Nil
  then show ?case by simp
next
  case (Cons l pre)
  then obtain x t where c: "funs l [] w = Inr (x, t)"
    by (cases "funs l [] w") auto
  with Cons.prems have "all_return funs [] pre t" and "funs r [] (run_calls funs [] pre t) = Inl (e, s')"
    by simp_all
  from Cons.IH [OF this, of "log @ [(l, [])]"] c show ?case
    by simp
qed

text \<open>
  Claim C9, as the code has it. The closure that \<^verbatim>\<open>joinRemoveListeners\<close> returns calls
  the removers in the order given, each with no argument, each in the state the ones
  before it left. If every remover returns, all of them have been called, once each,
  whatever they did or did not remove, and the closure ends in the state they left. The
  first remover that throws ends the loop: the removers up to and including that one
  have been called, once each, the ones after it are not called, and its exception is
  the closure's, with the state as the thrower left it.
\<close>

theorem joinRemoveListeners_calls_in_order:
  "(all_return funs [] rs w \<longrightarrow>
      joinRemoveListeners funs rs w =
        (map (\<lambda>l. (l, [])) rs, Inr (Undefined, run_calls funs [] rs w))) \<and>
   (\<forall>pre r post e s'.
      rs = pre @ r # post \<and> all_return funs [] pre w \<and>
      funs r [] (run_calls funs [] pre w) = Inl (e, s') \<longrightarrow>
      joinRemoveListeners funs rs w = (map (\<lambda>l. (l, [])) (pre @ [r]), Inl (e, s')))"
proof (intro conjI impI allI)
  assume "all_return funs [] rs w"
  from joinRemoveListeners_loop_all_return [OF this, of "[]"]
  show "joinRemoveListeners funs rs w =
          (map (\<lambda>l. (l, [])) rs, Inr (Undefined, run_calls funs [] rs w))"
    by (simp add: joinRemoveListeners_def)
next
  fix pre r post e s'
  assume a: "rs = pre @ r # post \<and> all_return funs [] pre w \<and>
      funs r [] (run_calls funs [] pre w) = Inl (e, s')"
  then have "joinRemoveListeners_loop funs (pre @ r # post) [] w =
      ([] @ map (\<lambda>l. (l, [])) (pre @ [r]), Inl (e, s'))"
    by (intro joinRemoveListeners_loop_first_throw) simp_all
  with a show "joinRemoveListeners funs rs w = (map (\<lambda>l. (l, [])) (pre @ [r]), Inl (e, s'))"
    by (simp add: joinRemoveListeners_def)
qed

theorem joinRemoveListeners_calls_in_order_witness:
  "joinRemoveListeners removers [3, 4, 3] \<lparr>listeners = [3, 5, 4]\<rparr> =
      ([(3, []), (4, []), (3, [])], Inr (Undefined, \<lparr>listeners = [5]\<rparr>)) \<and>
   joinRemoveListeners failing_then_remover [1, 0, 1] \<lparr>listeners = [3, 3]\<rparr> =
      ([(1, []), (0, [])], Inl (Str ''boom'', \<lparr>listeners = [3]\<rparr>))"
proof -
  have 1: "all_return removers [] [3, 4, 3] \<lparr>listeners = [3, 5, 4]\<rparr>"
    by (simp add: removers_def)
  have 2: "[1, 0, 1] = [1] @ 0 # [1 :: nat] \<and>
      all_return failing_then_remover [] [1] \<lparr>listeners = [3, 3]\<rparr> \<and>
      failing_then_remover 0 [] (run_calls failing_then_remover [] [1] \<lparr>listeners = [3, 3]\<rparr>) =
        Inl (Str ''boom'', \<lparr>listeners = [3]\<rparr>)"
    by (simp add: failing_then_remover_def remover_eq removeListener_eq)
  from joinRemoveListeners_calls_in_order [of removers "[3, 4, 3]" "\<lparr>listeners = [3, 5, 4]\<rparr>",
      THEN conjunct1, THEN mp, OF 1]
    joinRemoveListeners_calls_in_order [of failing_then_remover "[1, 0, 1]"
      "\<lparr>listeners = [3, 3]\<rparr>", THEN conjunct2, THEN spec, THEN spec, THEN spec, THEN spec,
      THEN spec, THEN mp, OF 2]
  show ?thesis
    by (simp add: removers_def remover_eq removeListener_eq)
qed

text \<open>
  Claim C9 as stated fails on a remover's failure: the first remover throws, and the
  second, which would have removed listener 3, is never called.
\<close>

theorem joinRemoveListeners_short_circuit_counterexample:
  "joinRemoveListeners failing_then_remover [0, 1] \<lparr>listeners = [3]\<rparr> =
     ([(0, [])], Inl (Str ''boom'', \<lparr>listeners = [3]\<rparr>))"
  by (simp add: joinRemoveListeners_def failing_then_remover_def)


section \<open>The value-backed event source\<close>

lemma resolve_literal: "\<not> is_function v \<Longrightarrow> resolve funs v w = Inr (v, w)"
  by (simp add: resolve_def)

lemma resolve_function: "resolve funs (Fun f) w = funs f [value w] w"
  by (simp add: resolve_def)

lemma setValue_resolved:
  assumes r: "resolve funs nxt w = Inr (c, w1)"
    and q: "\<forall>l\<in>set (listeners w1). quiet funs l"
  shows "(strict_eq c (value w1) \<longrightarrow> setValue funs nxt w = Some ([], Inr (value w1, w1))) \<and>
         (\<not> strict_eq c (value w1) \<longrightarrow>
            (\<exists>w'. setValue funs nxt w = Some (map (\<lambda>l. (l, [c])) (listeners w1), Inr (c, w')) \<and>
                  value w' = c \<and> listeners w' = listeners w1))"
proof (intro conjI impI)
  assume "strict_eq c (value w1)"
  with r show "setValue funs nxt w = Some ([], Inr (value w1, w1))"
    by (simp add: setValue_def)
next
  assume ne: "\<not> strict_eq c (value w1)"
  have "\<exists>w'. dispatch funs (\<lambda>s. [value s]) 0 [] (w1\<lparr>value := c\<rparr>) =
             Some (map (\<lambda>l. (l, [c])) (listeners (w1\<lparr>value := c\<rparr>)), Inr w') \<and>
          listeners w' = listeners (w1\<lparr>value := c\<rparr>) \<and> value w' = c"
    using q by (intro dispatch_value_quiet) simp_all
  then obtain w' where
    "dispatch funs (\<lambda>s. [value s]) 0 [] (w1\<lparr>value := c\<rparr>) =
       Some (map (\<lambda>l. (l, [c])) (listeners w1), Inr w')"
    "listeners w' = listeners w1" "value w' = c"
    by auto
  with r ne have "setValue funs nxt w = Some (map (\<lambda>l. (l, [c])) (listeners w1), Inr (c, w')) \<and>
                  value w' = c \<and> listeners w' = listeners w1"
    by (simp add: setValue_def)
  then show "\<exists>w'. setValue funs nxt w = Some (map (\<lambda>l. (l, [c])) (listeners w1), Inr (c, w')) \<and>
                  value w' = c \<and> listeners w' = listeners w1"
    by blast
qed



lemma quiet_incrementing: "quiet incrementing l"
  unfolding quiet_def
proof (intro allI)
  fix args and s :: "'a vb_state_scheme"
  show "\<exists>r s'. incrementing l args s = Inr (r, s') \<and> listeners s' = listeners s \<and>
          value s' = value s"
    by (cases "(l, args, s)" rule: incrementing.cases) simp_all
qed

lemma quiet_vb_noting: "quiet vb_noting l"
  unfolding quiet_def
proof (intro allI)
  fix args and s :: vb_heard_state
  show "\<exists>r s'. vb_noting l args s = Inr (r, s') \<and> listeners s' = listeners s \<and>
          value s' = value s"
  proof (cases "l = 9")
    case True
    then show ?thesis
      by (cases "(l, args, s)" rule: incrementing.cases) (simp_all add: vb_noting_def)
  next
    case False
    then show ?thesis
      by (simp add: vb_noting_def)
  qed
qed

lemma setValue_exact:
  assumes r: "resolve funs nxt w = Inr (c, w1)"
    and q: "\<forall>l\<in>set (listeners w1). quiet funs l"
    and ne: "\<not> strict_eq c (value w1)"
  shows "setValue funs nxt w =
           Some (map (\<lambda>l. (l, [c])) (listeners w1),
                 Inr (c, run_calls funs [c] (listeners w1) (w1\<lparr>value := c\<rparr>))) \<and>
         value (run_calls funs [c] (listeners w1) (w1\<lparr>value := c\<rparr>)) = c \<and>
         listeners (run_calls funs [c] (listeners w1) (w1\<lparr>value := c\<rparr>)) = listeners w1"
proof -
  have "dispatch funs (\<lambda>s. [value s]) 0 [] (w1\<lparr>value := c\<rparr>) =
           Some (map (\<lambda>l. (l, [c])) (listeners (w1\<lparr>value := c\<rparr>)),
                 Inr (run_calls funs [c] (listeners (w1\<lparr>value := c\<rparr>)) (w1\<lparr>value := c\<rparr>))) \<and>
         listeners (run_calls funs [c] (listeners (w1\<lparr>value := c\<rparr>)) (w1\<lparr>value := c\<rparr>)) =
           listeners (w1\<lparr>value := c\<rparr>) \<and>
         value (run_calls funs [c] (listeners (w1\<lparr>value := c\<rparr>)) (w1\<lparr>value := c\<rparr>)) = c"
    using q by (intro dispatch_value_exact) simp_all
  with r ne show ?thesis
    by (simp add: setValue_def)
qed

text \<open>
  Claim C3, as the code has it. \<^verbatim>\<open>setValue(next)\<close> takes as candidate \<open>c\<close> the result of
  \<open>next\<close> applied to the current value when \<open>next\<close> is a function (a pure one: it returns
  and leaves the state as it is), and \<open>next\<close> itself otherwise. If \<open>c\<close> is \<^verbatim>\<open>===\<close> to the
  stored value, nothing is mutated, no listener is called and the prior value is
  returned. Otherwise the stored value becomes \<open>c\<close> and, provided the listeners return
  and leave the registry and the value of the source as they are, every registered
  listener is called, in insertion order, once, with \<open>c\<close> as its only argument, \<open>c\<close> is
  returned, and the source is in the state these calls, made one after the other on
  the state with the new value, leave.
\<close>

theorem setValue_compare_mutate_dispatch:
  assumes "(\<not> is_function nxt \<and> c = nxt) \<or>
           (\<exists>f. nxt = Fun f \<and> funs f [value w] w = Inr (c, w))"
  shows "(strict_eq c (value w) \<longrightarrow> setValue funs nxt w = Some ([], Inr (value w, w))) \<and>
         (\<not> strict_eq c (value w) \<and> (\<forall>l\<in>set (listeners w). quiet funs l) \<longrightarrow>
            setValue funs nxt w =
              Some (map (\<lambda>l. (l, [c])) (listeners w),
                    Inr (c, run_calls funs [c] (listeners w) (w\<lparr>value := c\<rparr>))) \<and>
            getValue (run_calls funs [c] (listeners w) (w\<lparr>value := c\<rparr>)) = c \<and>
            listeners (run_calls funs [c] (listeners w) (w\<lparr>value := c\<rparr>)) = listeners w)"
proof -
  from assms have r: "resolve funs nxt w = Inr (c, w)"
    by (auto simp: resolve_literal resolve_function)
  show ?thesis
  proof (intro conjI impI)
    assume "strict_eq c (value w)"
    with r show "setValue funs nxt w = Some ([], Inr (value w, w))"
      by (simp add: setValue_def)
  next
    assume a: "\<not> strict_eq c (value w) \<and> (\<forall>l\<in>set (listeners w). quiet funs l)"
    then have ne: "\<not> strict_eq c (value w)" and q: "\<forall>l\<in>set (listeners w). quiet funs l"
      by simp_all
    note e = setValue_exact [OF r q ne]
    from e show "setValue funs nxt w =
              Some (map (\<lambda>l. (l, [c])) (listeners w),
                    Inr (c, run_calls funs [c] (listeners w) (w\<lparr>value := c\<rparr>)))"
      by simp
    from e show "getValue (run_calls funs [c] (listeners w) (w\<lparr>value := c\<rparr>)) = c"
      by (simp add: getValue_def)
    from e show "listeners (run_calls funs [c] (listeners w) (w\<lparr>value := c\<rparr>)) = listeners w"
      by simp
  qed
qed

theorem setValue_compare_mutate_dispatch_witness:
  "setValue vb_noting (Str ''chicken'')
       \<lparr>listeners = [1, 2], value = Str ''chicken'', vb_heard = []\<rparr> =
     Some ([], Inr (Str ''chicken'',
                    \<lparr>listeners = [1, 2], value = Str ''chicken'', vb_heard = []\<rparr>)) \<and>
   setValue vb_noting (Str ''rat'')
       \<lparr>listeners = [1, 2], value = Str ''chicken'', vb_heard = []\<rparr> =
     Some ([(1, [Str ''rat'']), (2, [Str ''rat''])],
           Inr (Str ''rat'',
                \<lparr>listeners = [1, 2], value = Str ''rat'',
                 vb_heard = [(1, [Str ''rat'']), (2, [Str ''rat''])]\<rparr>)) \<and>
   setValue vb_noting (Fun 9) \<lparr>listeners = [1], value = Num 5, vb_heard = []\<rparr> =
     Some ([(1, [Num 6])],
           Inr (Num 6, \<lparr>listeners = [1], value = Num 6, vb_heard = [(1, [Num 6])]\<rparr>))"
proof -
  have q: "\<forall>l\<in>set (listeners w). quiet vb_noting l" for w :: vb_heard_state
    by (simp add: quiet_vb_noting)
  have 1: "(\<not> is_function (Str ''chicken'') \<and> Str ''chicken'' = Str ''chicken'') \<or>
      (\<exists>f. Str ''chicken'' = Fun f \<and>
         vb_noting f [value \<lparr>listeners = [1, 2], value = Str ''chicken'', vb_heard = []\<rparr>]
           \<lparr>listeners = [1, 2], value = Str ''chicken'', vb_heard = []\<rparr> =
         Inr (Str ''chicken'', \<lparr>listeners = [1, 2], value = Str ''chicken'', vb_heard = []\<rparr>))"
    by simp
  have 2: "(\<not> is_function (Str ''rat'') \<and> Str ''rat'' = Str ''rat'') \<or>
      (\<exists>f. Str ''rat'' = Fun f \<and>
         vb_noting f [value \<lparr>listeners = [1, 2], value = Str ''chicken'', vb_heard = []\<rparr>]
           \<lparr>listeners = [1, 2], value = Str ''chicken'', vb_heard = []\<rparr> =
         Inr (Str ''rat'', \<lparr>listeners = [1, 2], value = Str ''chicken'', vb_heard = []\<rparr>))"
    by simp
  have 3: "(\<not> is_function (Fun 9) \<and> Num 6 = Fun 9) \<or>
      (\<exists>f. Fun 9 = Fun f \<and>
         vb_noting f [value \<lparr>listeners = [1], value = Num 5, vb_heard = []\<rparr>]
           \<lparr>listeners = [1], value = Num 5, vb_heard = []\<rparr> =
         Inr (Num 6, \<lparr>listeners = [1], value = Num 5, vb_heard = []\<rparr>))"
    by (simp add: vb_noting_def)
  from setValue_compare_mutate_dispatch [of "Str ''chicken''" "Str ''chicken''" vb_noting
      "\<lparr>listeners = [1, 2], value = Str ''chicken'', vb_heard = []\<rparr>", OF 1]
    setValue_compare_mutate_dispatch [of "Str ''rat''" "Str ''rat''" vb_noting
      "\<lparr>listeners = [1, 2], value = Str ''chicken'', vb_heard = []\<rparr>", OF 2]
    setValue_compare_mutate_dispatch [of "Fun 9" "Num 6" vb_noting
      "\<lparr>listeners = [1], value = Num 5, vb_heard = []\<rparr>", OF 3] q
  show ?thesis
    by (simp add: strict_eq_def vb_noting_def quiet_vb_noting)
qed

text \<open>
  Claim C3 as stated fails when a listener does not return, or changes the value. With a
  first listener that throws, the second is not called and \<^verbatim>\<open>setValue\<close> returns nothing,
  though the new value is stored. With a first listener that calls \<^verbatim>\<open>trigger('z')\<close>
  while it is dispatched to, the second listener is called with \<^verbatim>\<open>'z'\<close>, not with the
  candidate, and \<^verbatim>\<open>'z'\<close> is what \<^verbatim>\<open>setValue\<close> returns.
\<close>

theorem setValue_listeners_interfere_counterexample:
  "setValue throwing_first (Str ''rat'') \<lparr>listeners = [0, 1], value = Str ''chicken''\<rparr> =
     Some ([(0, [Str ''rat''])],
           Inl (Str ''boom'', \<lparr>listeners = [0, 1], value = Str ''rat''\<rparr>)) \<and>
   setValue reentrant (Str ''rat'') \<lparr>listeners = [0, 1], value = Str ''chicken''\<rparr> =
     Some ([(0, [Str ''rat'']), (1, [Str ''z''])],
           Inr (Str ''z'', \<lparr>listeners = [0, 1], value = Str ''z''\<rparr>))"
  by (simp add: setValue_def resolve_def strict_eq_def dispatch.simps throwing_first_def
      reentrant_def vb_trigger_def plain_def)

text \<open>
  The statement above says nothing of a listener that changes the registry while it is
  dispatched to. With a first listener that removes itself, the loop of \<^verbatim>\<open>setValue\<close>
  misses the second, as the loop of \<^verbatim>\<open>trigger\<close> does.
\<close>

lemma setValue_self_removal:
  "setValue removing_itself (Str ''rat'')
       \<lparr>listeners = [0, 1, 2], value = Str ''chicken''\<rparr> =
     Some ([(0, [Str ''rat'']), (2, [Str ''rat''])],
           Inr (Str ''rat'', \<lparr>listeners = [1, 2], value = Str ''rat''\<rparr>))"
  by (simp add: setValue_def resolve_def strict_eq_def dispatch.simps removing_itself_def
      removeListener_eq)

text \<open>
  Claim C4. For a literal value \<open>v\<close> (anything that is not a function),
  \<^verbatim>\<open>trigger(v)\<close> and \<^verbatim>\<open>setValue(v)\<close> do the same: the same comparison, the same
  assignment, the same calls of the listeners, the same final state and the same
  exception if a listener throws, and neither returns if the other does not. They
  differ in the value returned only, which \<^verbatim>\<open>trigger\<close> does not have.
\<close>

theorem trigger_agrees_with_setValue:
  assumes "\<not> is_function v"
  shows "vb_trigger funs v w = map_option (apsnd forget_result) (setValue funs v w)"
proof -
  have f: "forget_result (returning g c) = returning (\<lambda>s. Undefined) c"
    for g and c :: "'a vb_state_scheme loop_end"
    by (cases c) simp_all
  have "map_option (apsnd forget_result) (map_option (apsnd (returning value)) d) =
        map_option (apsnd (returning (\<lambda>s. Undefined))) d"
    for d :: "(call_log \<times> 'a vb_state_scheme loop_end) option"
    by (cases d) (auto simp: f)
  with assms show ?thesis
    by (simp add: vb_trigger_def setValue_def resolve_literal)
qed

theorem trigger_agrees_with_setValue_witness:
  "vb_trigger plain (Str ''rat'') \<lparr>listeners = [1, 2], value = Str ''chicken''\<rparr> =
     map_option (apsnd forget_result)
       (setValue plain (Str ''rat'') \<lparr>listeners = [1, 2], value = Str ''chicken''\<rparr>) \<and>
   \<not> is_function (Str ''rat'')"
  using trigger_agrees_with_setValue [of "Str ''rat''" plain
      "\<lparr>listeners = [1, 2], value = Str ''chicken''\<rparr>"]
  by simp






text \<open>
  Claim C10, as the code has it. \<^verbatim>\<open>setValue\<close> never takes a function argument as the
  candidate as it stands: it calls it with the current value, and the candidate is what
  the call returns. So, with listeners that leave the source alone, the value stored
  after \<^verbatim>\<open>setValue(f)\<close> is the result of \<open>f\<close>, which \<^verbatim>\<open>setValue\<close> also returns; it is \<open>f\<close>
  only when \<open>f\<close> returns itself. When the result is not a function, the call does what
  \<^verbatim>\<open>setValue\<close> of that result does in the state \<open>f\<close> left.
\<close>

theorem setValue_function_is_invoked:
  assumes "funs f [value w] w = Inr (r, w1)"
    and "\<forall>l\<in>set (listeners w1). quiet funs l"
  shows "(\<exists>log w'. setValue funs (Fun f) w = Some (log, Inr (r, w')) \<and> getValue w' = r \<and>
            (r \<noteq> Fun f \<longrightarrow> getValue w' \<noteq> Fun f)) \<and>
         (\<not> is_function r \<longrightarrow> setValue funs (Fun f) w = setValue funs r w1)"
proof (intro conjI impI)
  from assms(1) have r: "resolve funs (Fun f) w = Inr (r, w1)"
    by (simp add: resolve_function)
  show "\<exists>log w'. setValue funs (Fun f) w = Some (log, Inr (r, w')) \<and> getValue w' = r \<and>
            (r \<noteq> Fun f \<longrightarrow> getValue w' \<noteq> Fun f)"
  proof (cases "strict_eq r (value w1)")
    case True
    then have "value w1 = r"
      by (simp add: strict_eq_def)
    with setValue_resolved [OF r assms(2)] True show ?thesis
      by (simp add: getValue_def)
  next
    case False
    with setValue_resolved [OF r assms(2)] show ?thesis
      by (auto simp: getValue_def)
  qed
next
  assume "\<not> is_function r"
  then have "resolve funs r w1 = Inr (r, w1)"
    by (rule resolve_literal)
  with assms(1) show "setValue funs (Fun f) w = setValue funs r w1"
    by (simp add: setValue_def resolve_function)
qed

theorem setValue_function_is_invoked_witness:
  "(\<exists>log w'. setValue incrementing (Fun 9) \<lparr>listeners = [1], value = Num 5\<rparr> =
        Some (log, Inr (Num 6, w')) \<and> getValue w' = Num 6 \<and> getValue w' \<noteq> Fun 9) \<and>
   setValue incrementing (Fun 9) \<lparr>listeners = [1], value = Num 5\<rparr> =
     setValue incrementing (Num 6) \<lparr>listeners = [1], value = Num 5\<rparr>"
proof -
  have 1: "incrementing 9 [value \<lparr>listeners = [1], value = Num 5\<rparr>]
             \<lparr>listeners = [1], value = Num 5\<rparr> = Inr (Num 6, \<lparr>listeners = [1], value = Num 5\<rparr>)"
    by simp
  have 2: "\<forall>l\<in>set (listeners \<lparr>listeners = [1], value = Num 5\<rparr>). quiet incrementing l"
    by (simp add: quiet_incrementing)
  have 3: "Num 6 \<noteq> Fun 9" and 4: "\<not> is_function (Num 6)"
    by simp_all
  from setValue_function_is_invoked [OF 1 2] 3 4 show ?thesis
    by blast
qed

text \<open>
  Claim C10 as stated fails for a function that returns itself: \<^verbatim>\<open>setValue(f)\<close> calls
  \<open>f\<close>, gets \<open>f\<close>, and stores it.
\<close>

theorem setValue_stores_function_counterexample:
  "setValue self_returning (Fun 0) (createValueBackedEvent Undefined) =
     Some ([], Inr (Fun 0, \<lparr>listeners = [], value = Fun 0\<rparr>)) \<and>
   getValue \<lparr>listeners = [], value = Fun 0\<rparr> = Fun 0"
  by (simp add: setValue_def resolve_def self_returning_def createValueBackedEvent_def
      strict_eq_def dispatch.simps getValue_def)

end
